theory Spec2Isabelle
  imports Complex_Main "HOL-Library.Word"
begin

section \<open>Data model of MerkleTree.js\<close>

text \<open>
  A Buffer is a list of bytes. A string payload handed to \<^verbatim>\<open>crypto\<close> is hashed through its
  UTF-8 bytes, so a payload is a byte list as well.
\<close>

type_synonym byte = "8 word"
type_synonym bytes = "byte list"

text \<open>
  \<^verbatim>\<open>class Node { constructor(data) { this.data = data } get hash() { ... } }\<close>
  The digest comes from Node's \<^verbatim>\<open>crypto\<close> module (SHA-256), which is not part of the
  repository: every operation takes the digest function \<open>H\<close> as a parameter.
\<close>

record Node =
  data :: bytes

definition hash :: "(bytes \<Rightarrow> bytes) \<Rightarrow> Node \<Rightarrow> bytes" where
  "hash H n = H (data n)"

text \<open>An entry of the array \<^verbatim>\<open>getProof\<close> returns; \<open>None\<close> is JavaScript's \<^verbatim>\<open>undefined\<close>.\<close>

record ProofStep =
  hashPositionIndicator :: string
  sibling :: "Node option"

text \<open>The fields \<^verbatim>\<open>this.nodes\<close> and \<^verbatim>\<open>this.layers\<close> of a \<^verbatim>\<open>MerkleTree\<close>.\<close>

record MerkleTree =
  nodes :: "Node list"
  layers :: "Node list list"

text \<open>
  The two ways an operation can throw: \<^verbatim>\<open>throw new Error('Element not found: ' + rawData)\<close>
  and the \<^verbatim>\<open>TypeError\<close> of reading a property of \<^verbatim>\<open>undefined\<close>.
\<close>

datatype error = ElementNotFound bytes | TypeError

text \<open>Reading \<^verbatim>\<open>xs[i]\<close>: \<^verbatim>\<open>undefined\<close> outside the array, never an exception.\<close>

definition js_index :: "'a list \<Rightarrow> int \<Rightarrow> 'a option" where
  "js_index xs i = (if 0 \<le> i \<and> i < int (length xs) then Some (xs ! nat i) else None)"

text \<open>\<^verbatim>\<open>Buffer.toString('hex')\<close>: two lower-case hexadecimal digits per byte.\<close>

definition hex_digit :: "nat \<Rightarrow> char" where
  "hex_digit n = ''0123456789abcdef'' ! n"

definition hex_byte :: "byte \<Rightarrow> string" where
  "hex_byte b = [hex_digit (unat b div 16), hex_digit (unat b mod 16)]"

definition to_hex :: "bytes \<Rightarrow> string" where
  "to_hex bs = concat (map hex_byte bs)"

section \<open>Tree generation\<close>

text \<open>
  The inner \<^verbatim>\<open>for\<close> loop of \<^verbatim>\<open>generateTree\<close>: it walks \<^verbatim>\<open>leavesCopy\<close> two entries at a
  time and pushes onto \<^verbatim>\<open>newLayer\<close>. A \<^verbatim>\<open>Node\<close> object is always truthy, so \<^verbatim>\<open>!right\<close>
  holds exactly when the index is outside the array.
\<close>

function nextLayer_loop :: "(bytes \<Rightarrow> bytes) \<Rightarrow> Node list \<Rightarrow> nat \<Rightarrow> Node list \<Rightarrow> Node list" where
  "nextLayer_loop H leavesCopy iterator newLayer =
     (if iterator < length leavesCopy then
        (let left = leavesCopy ! iterator;
             right = js_index leavesCopy (int iterator + 1)
         in case right of
              None \<Rightarrow> nextLayer_loop H leavesCopy (iterator + 2) (newLayer @ [left])
            | Some r \<Rightarrow>
                (let leftRight = [hash H left, hash H r];
                     leaf = \<lparr>data = concat leftRight\<rparr>
                 in nextLayer_loop H leavesCopy (iterator + 2) (newLayer @ [leaf])))
      else newLayer)"
  by pat_completeness auto
termination
  by (relation "measure (\<lambda>(H, leavesCopy, iterator, newLayer). length leavesCopy - iterator)") auto

definition nextLayer :: "(bytes \<Rightarrow> bytes) \<Rightarrow> Node list \<Rightarrow> Node list" where
  "nextLayer H leavesCopy = nextLayer_loop H leavesCopy 0 []"

text \<open>
  \<^verbatim>\<open>Math.ceil(this.nodes.length / 2) + 1\<close>. The division is that of JavaScript numbers,
  which is exact on the halves of array lengths; it is modelled over the reals.
\<close>

definition targetLayerNumber :: "nat \<Rightarrow> int" where
  "targetLayerNumber n = \<lceil>real n / 2\<rceil> + 1"

text \<open>The \<^verbatim>\<open>while (this.layers.length < targetLayerNumber)\<close> loop.\<close>

function generateTree_loop ::
  "(bytes \<Rightarrow> bytes) \<Rightarrow> int \<Rightarrow> Node list list \<Rightarrow> Node list \<Rightarrow> Node list list" where
  "generateTree_loop H target lays leavesCopy =
     (if int (length lays) < target then
        (let newLayer = nextLayer H leavesCopy
         in generateTree_loop H target (lays @ [newLayer]) newLayer)
      else lays)"
  by pat_completeness auto
termination
  by (relation "measure (\<lambda>(H, target, lays, leavesCopy). nat (target - int (length lays)))") auto

definition generateTree :: "(bytes \<Rightarrow> bytes) \<Rightarrow> MerkleTree \<Rightarrow> MerkleTree" where
  "generateTree H t =
     (let leavesCopy = nodes t;
          lays = layers t @ [leavesCopy];
          target = targetLayerNumber (length (nodes t))
      in t\<lparr>layers := generateTree_loop H target lays leavesCopy\<rparr>)"

text \<open>The constructor: it stores the nodes, starts from no layers and generates the tree.\<close>

definition new_MerkleTree :: "(bytes \<Rightarrow> bytes) \<Rightarrow> Node list \<Rightarrow> MerkleTree" where
  "new_MerkleTree H ns = generateTree H \<lparr>nodes = ns, layers = []\<rparr>"

text \<open>
  \<^verbatim>\<open>this.layers[this.layers.length - 1][0].hash.toString('hex')\<close>: a missing top layer or a
  missing first entry is a property read on \<^verbatim>\<open>undefined\<close>.
\<close>

definition getMerkleRoot :: "(bytes \<Rightarrow> bytes) \<Rightarrow> MerkleTree \<Rightarrow> error + string" where
  "getMerkleRoot H t =
     (case js_index (layers t) (int (length (layers t)) - 1) of
        None \<Rightarrow> Inl TypeError
      | Some topLayer \<Rightarrow>
          (case js_index topLayer 0 of
             None \<Rightarrow> Inl TypeError
           | Some n \<Rightarrow> Inr (to_hex (hash H n))))"

section \<open>Proof generation\<close>

text \<open>The linear search of \<^verbatim>\<open>getProof\<close>; \<open>-1\<close> when no entry matches.\<close>

function findPosition :: "(bytes \<Rightarrow> bytes) \<Rightarrow> Node list \<Rightarrow> Node \<Rightarrow> nat \<Rightarrow> int" where
  "findPosition H ns d index =
     (if index < length ns then
        (let element = ns ! index
         in if to_hex (hash H element) = to_hex (hash H d) then int index
            else findPosition H ns d (index + 1))
      else - 1)"
  by pat_completeness auto
termination
  by (relation "measure (\<lambda>(H, ns, d, index). length ns - index)") auto

text \<open>
  Moving one layer up: \<^verbatim>\<open>positionIndex = positionIndex / 2\<close>, and when that is not an
  integer (\<^verbatim>\<open>Number.isInteger\<close>), \<^verbatim>\<open>Math.ceil(positionIndex) - 1\<close>. Again the division
  is exact on the halves of array indices and is modelled over the reals.
\<close>

definition moveUp :: "int \<Rightarrow> int" where
  "moveUp positionIndex =
     (let q = real_of_int positionIndex / 2
      in if real_of_int \<lfloor>q\<rfloor> = q then \<lfloor>q\<rfloor> else \<lceil>q\<rceil> - 1)"

text \<open>The second \<^verbatim>\<open>for\<close> loop of \<^verbatim>\<open>getProof\<close>, over all layers but the last.\<close>

function proof_loop :: "Node list list \<Rightarrow> nat \<Rightarrow> int \<Rightarrow> ProofStep list \<Rightarrow> ProofStep list" where
  "proof_loop lays index positionIndex proof =
     (if int index < int (length lays) - 1 then
        (let layer = lays ! index;
             position = (if positionIndex mod 2 = 0 then ''left'' else ''right'');
             indicator = (if position = ''left'' then ''right'' else ''left'');
             sib = (if position = ''left'' then positionIndex + 1 else positionIndex - 1);
             proof' = proof @ [\<lparr>hashPositionIndicator = indicator, sibling = js_index layer sib\<rparr>]
         in proof_loop lays (index + 1) (moveUp positionIndex) proof')
      else proof)"
  by pat_completeness auto
termination
  by (relation "measure (\<lambda>(lays, index, positionIndex, proof). length lays - index)") auto

definition getProof :: "(bytes \<Rightarrow> bytes) \<Rightarrow> MerkleTree \<Rightarrow> bytes \<Rightarrow> error + ProofStep list" where
  "getProof H t rawData =
     (let d = \<lparr>data = rawData\<rparr>;
          positionIndex = findPosition H (nodes t) d 0
      in if positionIndex = - 1 then Inl (ElementNotFound rawData)
         else Inr (proof_loop (layers t) 0 positionIndex []))"

section \<open>Verification\<close>

text \<open>
  The loop of \<^verbatim>\<open>verify\<close>. With the indicator \<^verbatim>\<open>'left'\<close> the sibling's hash is read
  without a check, which throws on \<^verbatim>\<open>undefined\<close>; with any other indicator an
  \<^verbatim>\<open>undefined\<close> sibling skips the step.
\<close>

function verify_loop :: "(bytes \<Rightarrow> bytes) \<Rightarrow> ProofStep list \<Rightarrow> nat \<Rightarrow> Node \<Rightarrow> error + Node" where
  "verify_loop H proof index d =
     (if index < length proof then
        (let element = proof ! index;
             sib = sibling element;
             position = hashPositionIndicator element
         in if position = ''left'' then
              (case sib of
                 None \<Rightarrow> Inl TypeError
               | Some s \<Rightarrow> verify_loop H proof (index + 1) \<lparr>data = concat [hash H s, hash H d]\<rparr>)
            else
              (case sib of
                 None \<Rightarrow> verify_loop H proof (index + 1) d
               | Some s \<Rightarrow> verify_loop H proof (index + 1) \<lparr>data = concat [hash H d, hash H s]\<rparr>))
      else Inr d)"
  by pat_completeness auto
termination
  by (relation "measure (\<lambda>(H, proof, index, d). length proof - index)") auto

definition verify :: "(bytes \<Rightarrow> bytes) \<Rightarrow> bytes \<Rightarrow> ProofStep list \<Rightarrow> string \<Rightarrow> error + bool" where
  "verify H rawData proof merkleRoot =
     (case verify_loop H proof 0 \<lparr>data = rawData\<rparr> of
        Inl e \<Rightarrow> Inl e
      | Inr d \<Rightarrow> Inr (to_hex (hash H d) = merkleRoot))"

section \<open>List-recursive forms of the loops\<close>

text \<open>
  The loops above run over indices, as the source does. The functions of this section
  recurse over the lists instead; each is proved equal to its loop below, and the proofs
  of the properties go through them.
\<close>

text \<open>One run of the inner \<^verbatim>\<open>for\<close> loop of \<^verbatim>\<open>generateTree\<close>, two entries at a time.\<close>

fun pairUp :: "(bytes \<Rightarrow> bytes) \<Rightarrow> Node list \<Rightarrow> Node list" where
  "pairUp H (l # r # rest) = \<lparr>data = H (data l) @ H (data r)\<rparr> # pairUp H rest"
| "pairUp H [l] = [l]"
| "pairUp H [] = []"

text \<open>The entry that one round of the second loop of \<^verbatim>\<open>getProof\<close> pushes, at position \<open>p\<close>.\<close>

definition stepAt :: "Node list \<Rightarrow> nat \<Rightarrow> ProofStep" where
  "stepAt layer p =
     (if even p then \<lparr>hashPositionIndicator = ''right'', sibling = js_index layer (int p + 1)\<rparr>
      else \<lparr>hashPositionIndicator = ''left'', sibling = js_index layer (int p - 1)\<rparr>)"

text \<open>The second loop of \<^verbatim>\<open>getProof\<close>: a step for every layer that has a layer above it.\<close>

fun walk :: "Node list list \<Rightarrow> nat \<Rightarrow> ProofStep list" where
  "walk (l # l' # ls) p = stepAt l p # walk (l' # ls) (p div 2)"
| "walk [l] p = []"
| "walk [] p = []"

text \<open>The loop of \<^verbatim>\<open>verify\<close>, step by step; the first unchecked read of a sibling stops it.\<close>

fun foldProof :: "(bytes \<Rightarrow> bytes) \<Rightarrow> ProofStep list \<Rightarrow> Node \<Rightarrow> error + Node" where
  "foldProof H [] d = Inr d"
| "foldProof H (e # es) d =
     (if hashPositionIndicator e = ''left'' then
        (case sibling e of
           None \<Rightarrow> Inl TypeError
         | Some s \<Rightarrow> foldProof H es \<lparr>data = H (data s) @ H (data d)\<rparr>)
      else
        (case sibling e of
           None \<Rightarrow> foldProof H es d
         | Some s \<Rightarrow> foldProof H es \<lparr>data = H (data d) @ H (data s)\<rparr>))"

text \<open>The \<^verbatim>\<open>while\<close> loop of \<^verbatim>\<open>generateTree\<close>: \<open>n\<close> layers, each built from the one before.\<close>

fun ladder :: "(bytes \<Rightarrow> bytes) \<Rightarrow> nat \<Rightarrow> Node list \<Rightarrow> Node list list" where
  "ladder H 0 cur = []"
| "ladder H (Suc n) cur = cur # ladder H n (pairUp H cur)"

text \<open>The length of the next layer, from the length of a layer.\<close>

definition half_up :: "nat \<Rightarrow> nat" where
  "half_up m = (m + 1) div 2"

section \<open>The verifier's fold as the specification words it\<close>

text \<open>
  The specification describes a proof as a sequence of steps, each with a side and an
  optional sibling hash, and the verifier as a fold over a current hash. These definitions
  follow its words; the case of a step on the left with no sibling hash is not described
  there and has no equation here.
\<close>

datatype side = LEFT | RIGHT

fun spec_step :: "(bytes \<Rightarrow> bytes) \<Rightarrow> bytes \<Rightarrow> side \<times> bytes option \<Rightarrow> bytes" where
  "spec_step H current (LEFT, Some siblingHash) = H (siblingHash @ current)"
| "spec_step H current (RIGHT, None) = current"
| "spec_step H current (RIGHT, Some siblingHash) = H (current @ siblingHash)"

definition spec_verify :: "(bytes \<Rightarrow> bytes) \<Rightarrow> bytes \<Rightarrow> (side \<times> bytes option) list \<Rightarrow> bytes \<Rightarrow> bool" where
  "spec_verify H payload steps claimedRoot = (foldl (spec_step H) (H payload) steps = claimedRoot)"

text \<open>How a step of the code's proof array reads as a step of the specification.\<close>

definition step_of :: "(bytes \<Rightarrow> bytes) \<Rightarrow> ProofStep \<Rightarrow> side \<times> bytes option" where
  "step_of H e =
     (if hashPositionIndicator e = ''left'' then LEFT else RIGHT, map_option (hash H) (sibling e))"

section \<open>Concrete inputs\<close>

text \<open>
  A small digest function at which the operations are evaluated on concrete inputs. The
  theorems below hold for every digest function \<open>H\<close>, SHA-256 among them.
\<close>

definition demoHash :: "bytes \<Rightarrow> bytes" where
  "demoHash bs = [of_nat (length bs), sum_list bs]"

text \<open>The leaves of the test driver, \<^verbatim>\<open>['a', 'b', 'c', 'd']\<close> and \<^verbatim>\<open>['a', 'b', 'c', 'd', 'e']\<close>.\<close>

definition fourLeaves :: "Node list" where
  "fourLeaves = [\<lparr>data = [97]\<rparr>, \<lparr>data = [98]\<rparr>, \<lparr>data = [99]\<rparr>, \<lparr>data = [100]\<rparr>]"

definition fiveLeaves :: "Node list" where
  "fiveLeaves = [\<lparr>data = [97]\<rparr>, \<lparr>data = [98]\<rparr>, \<lparr>data = [99]\<rparr>, \<lparr>data = [100]\<rparr>,
                 \<lparr>data = [101]\<rparr>]"

text \<open>Seven leaves, the least number above one at which the layer count exceeds the height.\<close>

definition sevenLeaves :: "Node list" where
  "sevenLeaves = [\<lparr>data = [1]\<rparr>, \<lparr>data = [2]\<rparr>, \<lparr>data = [3]\<rparr>, \<lparr>data = [4]\<rparr>,
                  \<lparr>data = [5]\<rparr>, \<lparr>data = [6]\<rparr>, \<lparr>data = [7]\<rparr>]"

section \<open>Arithmetic and hexadecimal encoding\<close>

lemma targetLayerNumber_eq: "targetLayerNumber n = int ((n + 1) div 2) + 1"
proof (cases "even n")
  case True
  then obtain k where k: "n = 2 * k" by (auto elim: evenE)
  have "\<lceil>real n / 2\<rceil> = int k" unfolding k by (rule ceiling_unique) simp_all
  then show ?thesis by (simp add: targetLayerNumber_def k)
next
  case False
  then obtain k where k: "n = 2 * k + 1" by (auto elim: oddE)
  have "\<lceil>real n / 2\<rceil> = int k + 1" unfolding k by (rule ceiling_unique) (simp_all add: field_simps)
  then show ?thesis by (simp add: targetLayerNumber_def k)
qed

lemma moveUp_eq: "moveUp p = p div 2"
proof (cases "even p")
  case True
  then obtain k where "p = 2 * k" by (auto elim: evenE)
  then show ?thesis by (simp add: moveUp_def)
next
  case False
  then obtain k where k: "p = 2 * k + 1" by (auto elim: oddE)
  have fl: "\<lfloor>real_of_int p / 2\<rfloor> = k" unfolding k by (rule floor_unique) simp_all
  have ce: "\<lceil>real_of_int p / 2\<rceil> = k + 1" unfolding k by (rule ceiling_unique) simp_all
  have ne: "real_of_int k \<noteq> real_of_int p / 2" unfolding k by (simp add: field_simps)
  show ?thesis unfolding moveUp_def Let_def fl ce using ne k by simp
qed

lemma hex_digit_inj: "a < 16 \<Longrightarrow> b < 16 \<Longrightarrow> hex_digit a = hex_digit b \<Longrightarrow> a = b"
proof -
  assume a: "a < 16" and b: "b < 16" and e: "hex_digit a = hex_digit b"
  have d: "distinct ''0123456789abcdef''" by simp
  have l: "length ''0123456789abcdef'' = 16" by simp
  from e have "''0123456789abcdef'' ! a = ''0123456789abcdef'' ! b" by (simp add: hex_digit_def)
  with d a b l show "a = b" by (metis nth_eq_iff_index_eq)
qed

lemma hex_byte_inj: "hex_byte a = hex_byte b \<Longrightarrow> a = b"
proof -
  assume e: "hex_byte a = hex_byte b"
  have la: "unat a < 256" using unsigned_less [of a, where ?'a = nat] by simp
  have lb: "unat b < 256" using unsigned_less [of b, where ?'a = nat] by simp
  have "unat a div 16 = unat b div 16"
    using e la lb by (intro hex_digit_inj) (simp_all add: hex_byte_def div_less_iff_less_mult) 
  moreover have "unat a mod 16 = unat b mod 16"
    using e by (intro hex_digit_inj) (simp_all add: hex_byte_def)
  ultimately have "unat a = unat b" by (metis div_mult_mod_eq)
  then show ?thesis by (simp add: word_unat_eq_iff)
qed

lemma length_hex_byte: "length (hex_byte b) = 2"
  by (simp add: hex_byte_def)

lemma to_hex_inj: "to_hex a = to_hex b \<Longrightarrow> a = b"
proof (induction a arbitrary: b)
  case Nil
  then show ?case by (cases b) (simp_all add: to_hex_def hex_byte_def)
next
  case (Cons x xs)
  show ?case
  proof (cases b)
    case Nil
    with Cons.prems show ?thesis by (simp add: to_hex_def hex_byte_def)
  next
    case (Cons y ys)
    with Cons.prems have "hex_byte x @ to_hex xs = hex_byte y @ to_hex ys"
      by (simp add: to_hex_def)
    then have "hex_byte x = hex_byte y" and "to_hex xs = to_hex ys"
      by (simp_all add: append_eq_append_conv length_hex_byte)
    with Cons.IH Cons show ?thesis by (simp add: hex_byte_inj)
  qed
qed

lemma to_hex_eq_iff: "to_hex a = to_hex b \<longleftrightarrow> a = b"
  using to_hex_inj by blast

section \<open>The loops and their list-recursive forms\<close>

declare nextLayer_loop.simps [simp del]
declare generateTree_loop.simps [simp del]
declare findPosition.simps [simp del]
declare proof_loop.simps [simp del]
declare verify_loop.simps [simp del]

lemma nextLayer_loop_eq: "nextLayer_loop H xs i acc = acc @ pairUp H (drop i xs)"
proof (induction H xs i acc rule: nextLayer_loop.induct)
  case (1 H xs i acc)
  show ?case
  proof (cases "i < length xs")
    case False
    then show ?thesis by (simp add: nextLayer_loop.simps [of H xs i acc])
  next
    case True
    note inr = True
    show ?thesis
    proof (cases "Suc i < length xs")
      case True
      have d: "drop i xs = xs ! i # xs ! Suc i # drop (i + 2) xs"
        using True inr by (simp add: Cons_nth_drop_Suc)
      have j: "js_index xs (int i + 1) = Some (xs ! Suc i)"
        using True by (simp add: js_index_def nat_add_distrib)
      show ?thesis
        using "1.IH"(2) [OF inr refl refl j refl refl] inr
        by (simp add: nextLayer_loop.simps [of H xs i acc] j d hash_def)
    next
      case False
      have d: "drop i xs = [xs ! i]"
        using False inr by (metis Cons_nth_drop_Suc drop_all not_less)
      have j: "js_index xs (int i + 1) = None"
        using False by (simp add: js_index_def)
      show ?thesis
        using "1.IH"(1) [OF inr refl refl j] inr False
        by (simp add: nextLayer_loop.simps [of H xs i acc] j d)
    qed
  qed
qed

lemma nextLayer_eq: "nextLayer H xs = pairUp H xs"
  by (simp add: nextLayer_def nextLayer_loop_eq)

lemma length_pairUp: "length (pairUp H xs) = (length xs + 1) div 2"
  by (induction H xs rule: pairUp.induct) simp_all

lemma pairUp_nth_pair:
  "2 * k + 1 < length xs \<Longrightarrow>
   pairUp H xs ! k = \<lparr>data = H (data (xs ! (2 * k))) @ H (data (xs ! (2 * k + 1)))\<rparr>"
proof (induction H xs arbitrary: k rule: pairUp.induct)
  case (1 H l r rest)
  then show ?case by (cases k) simp_all
qed simp_all

lemma pairUp_nth_single:
  "length xs = 2 * k + 1 \<Longrightarrow> pairUp H xs ! k = xs ! (2 * k)"
proof (induction H xs arbitrary: k rule: pairUp.induct)
  case (1 H l r rest)
  then show ?case by (cases k) simp_all
qed simp_all

lemma verify_loop_eq: "verify_loop H pf i d = foldProof H (drop i pf) d"
proof (induction H pf i d rule: verify_loop.induct)
  case (1 H pf i d)
  show ?case
  proof (cases "i < length pf")
    case False
    then show ?thesis by (simp add: verify_loop.simps [of H pf i d])
  next
    case True
    have d: "drop i pf = pf ! i # drop (Suc i) pf"
      using True by (simp add: Cons_nth_drop_Suc)
    show ?thesis
    proof (cases "hashPositionIndicator (pf ! i) = ''left''")
      case left: True
      show ?thesis
      proof (cases "sibling (pf ! i)")
        case None
        then show ?thesis
          using True left by (simp add: verify_loop.simps [of H pf i d] d)
      next
        case (Some s)
        then show ?thesis
          using True left "1.IH"(1) [OF True refl refl refl left Some]
          by (simp add: verify_loop.simps [of H pf i d] d hash_def)
      qed
    next
      case right: False
      show ?thesis
      proof (cases "sibling (pf ! i)")
        case None
        then show ?thesis
          using True right "1.IH"(2) [OF True refl refl refl right None]
          by (simp add: verify_loop.simps [of H pf i d] d)
      next
        case (Some s)
        then show ?thesis
          using True right "1.IH"(3) [OF True refl refl refl right Some]
          by (simp add: verify_loop.simps [of H pf i d] d hash_def)
      qed
    qed
  qed
qed

lemma walk_short: "length ls \<le> 1 \<Longrightarrow> walk ls p = []"
  by (cases ls; cases "tl ls") auto

lemma walk_unfold:
  "Suc i < length lays \<Longrightarrow>
   walk (drop i lays) p = stepAt (lays ! i) p # walk (drop (Suc i) lays) (p div 2)"
proof -
  assume a: "Suc i < length lays"
  have d': "drop (Suc i) lays = lays ! Suc i # drop (Suc (Suc i)) lays"
    using a by (simp add: Cons_nth_drop_Suc)
  have d: "drop i lays = lays ! i # drop (Suc i) lays"
    using a by (simp add: Cons_nth_drop_Suc Suc_lessD)
  show ?thesis by (subst d, subst d', subst d') simp
qed

lemma proof_loop_step:
  assumes "Suc i < length lays"
  shows "proof_loop lays i (int p) acc =
         proof_loop lays (i + 1) (int (p div 2)) (acc @ [stepAt (lays ! i) p])"
proof -
  have c: "int i < int (length lays) - 1" using assms by simp
  have m: "moveUp (int p) = int (p div 2)" by (simp add: moveUp_eq zdiv_int)
  have e: "(int p mod 2 = 0) = even p" by presburger
  show ?thesis
    by (subst proof_loop.simps) (simp add: c Let_def m e stepAt_def)
qed

lemma proof_loop_eq:
  "proof_loop lays i (int p) acc = acc @ walk (drop i lays) p"
proof (induction "length lays - i" arbitrary: i p acc)
  case 0
  then have "length (drop i lays) \<le> 1" by simp
  then have w: "walk (drop i lays) p = []" by (rule walk_short)
  have c: "\<not> int i < int (length lays) - 1" using 0 by simp
  show ?case by (subst proof_loop.simps) (simp add: c w)
next
  case (Suc n)
  show ?case
  proof (cases "Suc i < length lays")
    case False
    then have "length (drop i lays) \<le> 1" by simp
    then have w: "walk (drop i lays) p = []" by (rule walk_short)
    have c: "\<not> int i < int (length lays) - 1" using False by simp
    show ?thesis by (subst proof_loop.simps) (simp add: c w)
  next
    case True
    have n: "n = length lays - (i + 1)" using Suc.hyps(2) by simp
    show ?thesis
      by (simp only: proof_loop_step [OF True] Suc.hyps(1) [OF n] walk_unfold [OF True])
         simp
  qed
qed

lemma generateTree_loop_eq:
  "generateTree_loop H target lays cur =
     lays @ ladder H (nat (target - int (length lays))) (pairUp H cur)"
proof (induction H target lays cur rule: generateTree_loop.induct)
  case (1 H target lays cur)
  show ?case
  proof (cases "int (length lays) < target")
    case False
    then show ?thesis by (subst generateTree_loop.simps) simp
  next
    case True
    then obtain n where n: "nat (target - int (length lays)) = Suc n"
      by (cases "nat (target - int (length lays))") auto
    then have n': "nat (target - int (length (lays @ [pairUp H cur]))) = n" by simp
    have "generateTree_loop H target lays cur =
          generateTree_loop H target (lays @ [pairUp H cur]) (pairUp H cur)"
      by (subst generateTree_loop.simps) (simp add: True nextLayer_eq Let_def)
    also have "\<dots> = (lays @ [pairUp H cur]) @ ladder H n (pairUp H (pairUp H cur))"
      using "1.IH" [OF True] n' by (simp add: nextLayer_eq)
    finally show ?thesis by (simp add: n)
  qed
qed

lemma layers_new_MerkleTree:
  "layers (new_MerkleTree H ns) = ladder H (Suc ((length ns + 1) div 2)) ns"
  by (simp add: new_MerkleTree_def generateTree_def generateTree_loop_eq targetLayerNumber_eq
      nat_add_distrib)

lemma nodes_new_MerkleTree: "nodes (new_MerkleTree H ns) = ns"
  by (simp add: new_MerkleTree_def generateTree_def)

lemma length_ladder: "length (ladder H n cur) = n"
  by (induction n arbitrary: cur) simp_all

lemma ladder_nth: "k < n \<Longrightarrow> ladder H n cur ! k = (pairUp H ^^ k) cur"
proof (induction n arbitrary: cur k)
  case 0
  then show ?case by simp
next
  case (Suc n)
  then show ?case by (cases k) (simp_all add: funpow_swap1)
qed

lemma halving_reaches_one:
  "1 \<le> x \<Longrightarrow> x \<le> Suc k \<Longrightarrow> (half_up ^^ k) x = 1"
proof (induction k arbitrary: x)
  case 0
  then show ?case by simp
next
  case (Suc k)
  have "1 \<le> half_up x" using Suc.prems unfolding half_up_def by linarith
  moreover have "half_up x \<le> Suc k" using Suc.prems unfolding half_up_def by linarith
  ultimately have "(half_up ^^ k) (half_up x) = 1" by (rule Suc.IH)
  then show ?case by (simp add: funpow_swap1)
qed

lemma length_funpow_pairUp:
  "length ((pairUp H ^^ k) xs) = (half_up ^^ k) (length xs)"
  by (induction k) (simp_all add: length_pairUp half_up_def)

lemma length_top_layer:
  assumes "xs \<noteq> []"
  shows "length ((pairUp H ^^ ((length xs + 1) div 2)) xs) = 1"
proof -
  have pos: "1 \<le> length xs" using assms by (cases xs) simp_all
  obtain k where k: "half_up (length xs) = Suc k"
    using pos by (cases "half_up (length xs)") (auto simp: half_up_def)
  have "(half_up ^^ Suc k) (length xs) = (half_up ^^ k) (half_up (length xs))"
    by (simp add: funpow_swap1)
  also have "\<dots> = 1" unfolding k by (rule halving_reaches_one) simp_all
  finally have "length ((pairUp H ^^ Suc k) xs) = 1" by (simp only: length_funpow_pairUp)
  then show ?thesis using k by (simp only: half_up_def)
qed

lemma findPosition_none:
  "(\<And>j. i \<le> j \<Longrightarrow> j < length ns \<Longrightarrow> H (data (ns ! j)) \<noteq> H (data d)) \<Longrightarrow>
   findPosition H ns d i = - 1"
proof (induction H ns d i rule: findPosition.induct)
  case (1 H ns d i)
  show ?case
  proof (cases "i < length ns")
    case False
    then show ?thesis by (subst findPosition.simps) simp
  next
    case True
    have ne: "H (data (ns ! i)) \<noteq> H (data d)" using "1.prems" [of i] True by simp
    then have neq: "to_hex (hash H (ns ! i)) \<noteq> to_hex (hash H d)"
      by (simp add: hash_def to_hex_eq_iff)
    have "findPosition H ns d (i + 1) = - 1"
    proof (rule "1.IH" [OF True refl neq])
      fix j assume "i + 1 \<le> j" and "j < length ns"
      then show "H (data (ns ! j)) \<noteq> H (data d)" using "1.prems" [of j] by simp
    qed
    then show ?thesis
      using True neq by (subst findPosition.simps) (simp add: Let_def)
  qed
qed

lemma findPosition_first:
  "i \<le> r \<Longrightarrow> r < length ns \<Longrightarrow> H (data (ns ! r)) = H (data d) \<Longrightarrow>
   (\<And>j. i \<le> j \<Longrightarrow> j < r \<Longrightarrow> H (data (ns ! j)) \<noteq> H (data d)) \<Longrightarrow>
   findPosition H ns d i = int r"
proof (induction H ns d i rule: findPosition.induct)
  case (1 H ns d i)
  have il: "i < length ns" using "1.prems"(1,2) by simp
  show ?case
  proof (cases "i = r")
    case True
    have "to_hex (hash H (ns ! i)) = to_hex (hash H d)"
      using "1.prems"(3) True by (simp add: hash_def)
    then show ?thesis
      using il True by (subst findPosition.simps) (simp add: Let_def)
  next
    case False
    then have lt: "i < r" using "1.prems"(1) by simp
    then have ne: "H (data (ns ! i)) \<noteq> H (data d)" using "1.prems"(4) [of i] by simp
    then have neq: "to_hex (hash H (ns ! i)) \<noteq> to_hex (hash H d)"
      by (simp add: hash_def to_hex_eq_iff)
    have "findPosition H ns d (i + 1) = int r"
    proof (rule "1.IH" [OF il refl neq _ "1.prems"(2,3)])
      show "i + 1 \<le> r" using lt by simp
    next
      fix j assume "i + 1 \<le> j" and "j < r"
      then show "H (data (ns ! j)) \<noteq> H (data d)" using "1.prems"(4) [of j] by simp
    qed
    then show ?thesis
      using il neq by (subst findPosition.simps) (simp add: Let_def)
  qed
qed

lemma findPosition_cases:
  "(findPosition H ns d 0 = - 1 \<and> (\<forall>j < length ns. H (data (ns ! j)) \<noteq> H (data d))) \<or>
   (\<exists>r < length ns. findPosition H ns d 0 = int r \<and> H (data (ns ! r)) = H (data d) \<and>
      (\<forall>j < r. H (data (ns ! j)) \<noteq> H (data d)))"
proof (cases "\<exists>j < length ns. H (data (ns ! j)) = H (data d)")
  case False
  then have "\<And>j. 0 \<le> j \<Longrightarrow> j < length ns \<Longrightarrow> H (data (ns ! j)) \<noteq> H (data d)" by blast
  then have "findPosition H ns d 0 = - 1" by (rule findPosition_none)
  with False show ?thesis by blast
next
  case True
  let ?P = "\<lambda>j. j < length ns \<and> H (data (ns ! j)) = H (data d)"
  from True have "\<exists>j. ?P j" by blast
  then have "\<exists>r. ?P r \<and> (\<forall>j<r. \<not> ?P j)" by (subst (asm) exists_least_iff)
  then obtain r where r: "r < length ns \<and> H (data (ns ! r)) = H (data d)"
    and m: "\<forall>j<r. \<not> ?P j" by blast
  have least: "\<And>j. j < r \<Longrightarrow> H (data (ns ! j)) \<noteq> H (data d)"
  proof -
    fix j assume jr: "j < r"
    then have "j < length ns" using r by simp
    with m jr show "H (data (ns ! j)) \<noteq> H (data d)" by blast
  qed
  have "findPosition H ns d 0 = int r"
    using r least by (intro findPosition_first) simp_all
  with r least show ?thesis by blast
qed

section \<open>Walking and folding a ladder of layers\<close>

lemma js_index_in_range: "i < length xs \<Longrightarrow> js_index xs (int i) = Some (xs ! i)"
  by (simp add: js_index_def)

lemma half_less: "p < n \<Longrightarrow> p div 2 < (n + 1) div (2::nat)"
  by linarith

lemma fold_step:
  assumes "p < length cur" and "H (data d) = H (data (cur ! p))"
  shows "\<exists>d1. foldProof H (stepAt cur p # rest) d = foldProof H rest d1 \<and>
              H (data d1) = H (data (pairUp H cur ! (p div 2)))"
proof (cases "even p")
  case True
  then obtain k where k: "p = 2 * k" by (auto elim: evenE)
  show ?thesis
  proof (cases "p + 1 < length cur")
    case inr: True
    have j: "js_index cur (int p + 1) = Some (cur ! (p + 1))"
      using inr by (simp add: js_index_def nat_add_distrib)
    have n: "pairUp H cur ! k = \<lparr>data = H (data (cur ! (2 * k))) @ H (data (cur ! (2 * k + 1)))\<rparr>"
      using inr k by (intro pairUp_nth_pair) simp
    show ?thesis
      using True j n assms(2) k
      by (intro exI [of _ "\<lparr>data = H (data d) @ H (data (cur ! (p + 1)))\<rparr>"])
        (simp add: stepAt_def)
  next
    case False
    then have len: "length cur = 2 * k + 1" using assms(1) k by simp
    have j: "js_index cur (int p + 1) = None"
      using False by (simp add: js_index_def)
    have n: "pairUp H cur ! k = cur ! (2 * k)"
      using len by (rule pairUp_nth_single)
    show ?thesis
      using True j n assms(2) k by (intro exI [of _ d]) (simp add: stepAt_def)
  qed
next
  case False
  then obtain k where k: "p = 2 * k + 1" by (auto elim: oddE)
  have "int p - 1 = int (2 * k)" using k by simp
  then have j: "js_index cur (int p - 1) = Some (cur ! (2 * k))"
    using assms(1) k by (simp only: js_index_in_range)
  have n: "pairUp H cur ! k = \<lparr>data = H (data (cur ! (2 * k))) @ H (data (cur ! (2 * k + 1)))\<rparr>"
    using assms(1) k by (intro pairUp_nth_pair) simp
  show ?thesis
    using False j n assms(2) k
    by (intro exI [of _ "\<lparr>data = H (data (cur ! (2 * k))) @ H (data d)\<rparr>"])
      (simp add: stepAt_def)
qed

lemma fold_walk:
  "p < length cur \<Longrightarrow> H (data d) = H (data (cur ! p)) \<Longrightarrow>
   \<exists>d'. foldProof H (walk (ladder H (Suc n) cur) p) d = Inr d' \<and>
        H (data d') = H (data ((pairUp H ^^ n) cur ! (p div 2 ^ n)))"
proof (induction n arbitrary: cur p d)
  case 0
  then show ?case by simp
next
  case (Suc n)
  obtain d1 where s: "foldProof H (stepAt cur p # walk (ladder H (Suc n) (pairUp H cur)) (p div 2)) d =
                      foldProof H (walk (ladder H (Suc n) (pairUp H cur)) (p div 2)) d1"
    and h: "H (data d1) = H (data (pairUp H cur ! (p div 2)))"
    using fold_step [OF Suc.prems] by blast
  have r: "p div 2 < length (pairUp H cur)"
    using Suc.prems(1) by (simp only: length_pairUp half_less)
  obtain d' where f: "foldProof H (walk (ladder H (Suc n) (pairUp H cur)) (p div 2)) d1 = Inr d'"
    and e: "H (data d') = H (data ((pairUp H ^^ n) (pairUp H cur) ! (p div 2 div 2 ^ n)))"
    using Suc.IH [OF r h] by blast
  have "foldProof H (walk (ladder H (Suc (Suc n)) cur) p) d = Inr d'"
    using s f by simp
  moreover have "H (data d') = H (data ((pairUp H ^^ Suc n) cur ! (p div 2 ^ Suc n)))"
    using e by (simp add: funpow_swap1 div_mult2_eq)
  ultimately show ?case by blast
qed

lemma stepAt_indicator:
  "hashPositionIndicator (stepAt cur p) = (if even p then ''right'' else ''left'')"
  by (simp add: stepAt_def)

lemma stepAt_sibling_odd:
  "odd p \<Longrightarrow> p < length cur \<Longrightarrow> sibling (stepAt cur p) = Some (cur ! (p - 1))"
  by (auto simp: stepAt_def js_index_def nat_diff_distrib' elim: oddE)

lemma stepAt_sibling_even:
  "even p \<Longrightarrow>
   sibling (stepAt cur p) = (if p + 1 < length cur then Some (cur ! (p + 1)) else None)"
  by (simp add: stepAt_def js_index_def nat_add_distrib)

lemma walk_ladder_left:
  "p < length cur \<Longrightarrow> s \<in> set (walk (ladder H n cur) p) \<Longrightarrow>
   hashPositionIndicator s = ''left'' \<Longrightarrow> sibling s \<noteq> None"
proof (induction n arbitrary: cur p)
  case 0
  then show ?case by simp
next
  case (Suc n)
  show ?case
  proof (cases n)
    case 0
    with Suc.prems show ?thesis by simp
  next
    case (Suc m)
    then have w: "walk (ladder H (Suc n) cur) p =
                  stepAt cur p # walk (ladder H n (pairUp H cur)) (p div 2)"
      by simp
    have r: "p div 2 < length (pairUp H cur)"
      using Suc.prems(1) by (simp only: length_pairUp half_less)
    from Suc.prems(2) w
    consider "s = stepAt cur p" | "s \<in> set (walk (ladder H n (pairUp H cur)) (p div 2))"
      by auto
    then show ?thesis
    proof cases
      case 1
      then have "odd p" using Suc.prems(3) by (simp add: stepAt_indicator split: if_splits)
      then show ?thesis using 1 Suc.prems(1) by (simp add: stepAt_sibling_odd)
    next
      case 2
      then show ?thesis using Suc.IH [OF r] Suc.prems(3) by blast
    qed
  qed
qed

lemma walk_indicator:
  "s \<in> set (walk ls p) \<Longrightarrow>
   hashPositionIndicator s = ''left'' \<or> hashPositionIndicator s = ''right''"
  by (induction ls p rule: walk.induct) (auto simp: stepAt_indicator)

lemma length_walk: "length (walk ls p) = length ls - 1"
  by (induction ls p rule: walk.induct) simp_all

lemma walk_nth: "Suc k < length ls \<Longrightarrow> walk ls p ! k = stepAt (ls ! k) (p div 2 ^ k)"
proof (induction ls p arbitrary: k rule: walk.induct)
  case (1 l l' ls p)
  then show ?case by (cases k) (simp_all add: div_mult2_eq)
qed simp_all

lemma position_in_range:
  "p < length cur \<Longrightarrow> p div 2 ^ k < length ((pairUp H ^^ k) cur)"
proof (induction k)
  case 0
  then show ?case by simp
next
  case (Suc k)
  then have b: "p div 2 ^ k < length ((pairUp H ^^ k) cur)" by simp
  have e: "p div 2 ^ Suc k = p div 2 ^ k div 2"
    by (metis div_mult2_eq mult.commute power_Suc)
  have l: "length ((pairUp H ^^ Suc k) cur) = (length ((pairUp H ^^ k) cur) + 1) div 2"
    by (simp add: length_pairUp)
  show ?case unfolding e l using b by (rule half_less)
qed

lemma foldProof_total:
  "(\<And>s. s \<in> set pf \<Longrightarrow> hashPositionIndicator s = ''left'' \<Longrightarrow> sibling s \<noteq> None) \<Longrightarrow>
   \<exists>d'. foldProof H pf d = Inr d'"
proof (induction pf arbitrary: d)
  case Nil
  then show ?case by simp
next
  case (Cons e es)
  have ih: "\<And>d. \<exists>d'. foldProof H es d = Inr d'"
    using Cons.prems by (intro Cons.IH) simp_all
  show ?case
  proof (cases "hashPositionIndicator e = ''left''")
    case True
    then obtain sb where "sibling e = Some sb" using Cons.prems [of e] by auto
    with True ih show ?thesis by simp
  next
    case False
    with ih show ?thesis by (cases "sibling e") simp_all
  qed
qed

lemma foldProof_TypeError:
  "s \<in> set pf \<Longrightarrow> hashPositionIndicator s = ''left'' \<Longrightarrow> sibling s = None \<Longrightarrow>
   foldProof H pf d = Inl TypeError"
proof (induction pf arbitrary: d)
  case Nil
  then show ?case by simp
next
  case (Cons e es)
  show ?case
  proof (cases "s = e")
    case True
    with Cons.prems show ?thesis by simp
  next
    case False
    then have "\<And>d. foldProof H es d = Inl TypeError"
      using Cons.prems by (intro Cons.IH) simp_all
    then show ?thesis by (simp split: option.splits)
  qed
qed

lemma verify_eq:
  "verify H rawData pf merkleRoot =
     (case foldProof H pf \<lparr>data = rawData\<rparr> of
        Inl e \<Rightarrow> Inl e
      | Inr d \<Rightarrow> Inr (to_hex (H (data d)) = merkleRoot))"
  by (simp add: verify_def verify_loop_eq hash_def split: sum.splits)

lemma getProof_found:
  "findPosition H (nodes t) \<lparr>data = rawData\<rparr> 0 = int r \<Longrightarrow>
   getProof H t rawData = Inr (walk (layers t) r)"
  by (simp add: getProof_def proof_loop_eq)

lemma getProof_not_found:
  "findPosition H (nodes t) \<lparr>data = rawData\<rparr> 0 = - 1 \<Longrightarrow>
   getProof H t rawData = Inl (ElementNotFound rawData)"
  by (simp add: getProof_def)

lemma getMerkleRoot_new:
  assumes "ns \<noteq> []"
  shows "getMerkleRoot H (new_MerkleTree H ns) =
         Inr (to_hex (H (data ((pairUp H ^^ ((length ns + 1) div 2)) ns ! 0))))"
proof -
  let ?m = "(length ns + 1) div 2"
  have top: "js_index (layers (new_MerkleTree H ns)) (int (length (layers (new_MerkleTree H ns))) - 1)
             = Some ((pairUp H ^^ ?m) ns)"
    by (simp add: layers_new_MerkleTree length_ladder js_index_def ladder_nth del: ladder.simps)
  have "length ((pairUp H ^^ ?m) ns) = 1" using assms by (rule length_top_layer)
  then have "js_index ((pairUp H ^^ ?m) ns) 0 = Some ((pairUp H ^^ ?m) ns ! 0)"
    by (simp add: js_index_def)
  with top show ?thesis by (simp add: getMerkleRoot_def hash_def)
qed

section \<open>Further facts for the claims\<close>

lemma funpow_pairUp_single: "length xs = 1 \<Longrightarrow> (pairUp H ^^ n) xs = xs"
proof (induction n)
  case 0
  then show ?case by simp
next
  case (Suc n)
  from Suc.prems obtain x where "xs = [x]" by (cases xs) auto
  with Suc show ?case by simp
qed

lemma foldProof_spec:
  "(\<And>e. e \<in> set pf \<Longrightarrow> hashPositionIndicator e = ''left'' \<Longrightarrow> sibling e \<noteq> None) \<Longrightarrow>
   \<exists>d'. foldProof H pf d = Inr d' \<and>
        H (data d') = foldl (spec_step H) (H (data d)) (map (step_of H) pf)"
proof (induction pf arbitrary: d)
  case Nil
  then show ?case by simp
next
  case (Cons e es)
  have ih: "\<And>d. \<exists>d'. foldProof H es d = Inr d' \<and>
        H (data d') = foldl (spec_step H) (H (data d)) (map (step_of H) es)"
    using Cons.prems by (intro Cons.IH) simp_all
  show ?case
  proof (cases "hashPositionIndicator e = ''left''")
    case True
    then obtain sb where sb: "sibling e = Some sb" using Cons.prems [of e] by auto
    show ?thesis
      using ih [of "\<lparr>data = H (data sb) @ H (data d)\<rparr>"] True sb
      by (simp add: step_of_def [of H e] hash_def)
  next
    case False
    show ?thesis
    proof (cases "sibling e")
      case None
      with False ih [of d] show ?thesis by (simp add: step_of_def [of H e])
    next
      case (Some sb)
      with False ih [of "\<lparr>data = H (data d) @ H (data sb)\<rparr>"] show ?thesis
        by (simp add: step_of_def [of H e] hash_def)
    qed
  qed
qed

lemma layers_fourLeaves:
  "layers (new_MerkleTree H fourLeaves) =
     [fourLeaves,
      [\<lparr>data = H [97] @ H [98]\<rparr>, \<lparr>data = H [99] @ H [100]\<rparr>],
      [\<lparr>data = H (H [97] @ H [98]) @ H (H [99] @ H [100])\<rparr>]]"
proof -
  have len: "(length fourLeaves + 1) div 2 = 2" by (simp add: fourLeaves_def)
  have s: "Suc 2 = Suc (Suc (Suc 0))" by simp
  show ?thesis
    unfolding layers_new_MerkleTree len s by (simp add: fourLeaves_def)
qed

lemma layers_fiveLeaves:
  "layers (new_MerkleTree H fiveLeaves) =
     [fiveLeaves,
      [\<lparr>data = H [97] @ H [98]\<rparr>, \<lparr>data = H [99] @ H [100]\<rparr>, \<lparr>data = [101]\<rparr>],
      [\<lparr>data = H (H [97] @ H [98]) @ H (H [99] @ H [100])\<rparr>, \<lparr>data = [101]\<rparr>],
      [\<lparr>data = H (H (H [97] @ H [98]) @ H (H [99] @ H [100])) @ H [101]\<rparr>]]"
proof -
  have len: "(length fiveLeaves + 1) div 2 = 3" by (simp add: fiveLeaves_def)
  have s: "Suc 3 = Suc (Suc (Suc (Suc 0)))" by simp
  show ?thesis
    unfolding layers_new_MerkleTree len s by (simp add: fiveLeaves_def)
qed

lemma getProof_fiveLeaves:
  "getProof demoHash (new_MerkleTree demoHash fiveLeaves) [101] =
     Inr [\<lparr>hashPositionIndicator = ''right'', sibling = None\<rparr>,
          \<lparr>hashPositionIndicator = ''right'', sibling = None\<rparr>,
          \<lparr>hashPositionIndicator = ''left'',
           sibling = Some \<lparr>data = demoHash (demoHash [97] @ demoHash [98]) @
                                  demoHash (demoHash [99] @ demoHash [100])\<rparr>\<rparr>]"
proof -
  have "findPosition demoHash fiveLeaves \<lparr>data = [101]\<rparr> 0 = int 4"
    by (rule findPosition_first)
      (auto simp: fiveLeaves_def demoHash_def nth_Cons split: nat.splits)
  then have "getProof demoHash (new_MerkleTree demoHash fiveLeaves) [101] =
             Inr (walk (layers (new_MerkleTree demoHash fiveLeaves)) 4)"
    by (simp only: getProof_found nodes_new_MerkleTree)
  also have "walk (layers (new_MerkleTree demoHash fiveLeaves)) 4 =
     [\<lparr>hashPositionIndicator = ''right'', sibling = None\<rparr>,
      \<lparr>hashPositionIndicator = ''right'', sibling = None\<rparr>,
      \<lparr>hashPositionIndicator = ''left'',
       sibling = Some \<lparr>data = demoHash (demoHash [97] @ demoHash [98]) @
                              demoHash (demoHash [99] @ demoHash [100])\<rparr>\<rparr>]"
    unfolding layers_fiveLeaves by (simp add: stepAt_def js_index_def fiveLeaves_def)
  finally show ?thesis .
qed

section \<open>Self-consistency of generated proofs\<close>

text \<open>
  Claim C1. For every non-empty list \<open>P\<close> of payloads and every payload \<open>p\<close> in it, building
  the tree over the nodes made from \<open>P\<close>, generating the proof for \<open>p\<close> and reading the root
  all succeed, and verifying \<open>p\<close> with that proof against that root returns true. The
  payloads need not even be distinct, and the digest function is arbitrary: the search
  stops at the first leaf with the digest of \<open>p\<close>, and the verifier starts from that same
  digest.
\<close>

theorem self_consistency:
  assumes "P \<noteq> []" and "p \<in> set P"
  shows "\<exists>pf root.
           getProof H (new_MerkleTree H (map (\<lambda>x. \<lparr>data = x\<rparr>) P)) p = Inr pf \<and>
           getMerkleRoot H (new_MerkleTree H (map (\<lambda>x. \<lparr>data = x\<rparr>) P)) = Inr root \<and>
           verify H p pf root = Inr True"
proof -
  let ?ns = "map (\<lambda>x. \<lparr>data = x\<rparr>) P"
  let ?t = "new_MerkleTree H ?ns"
  let ?m = "(length ?ns + 1) div 2"
  let ?top = "(pairUp H ^^ ?m) ?ns"
  have ne: "?ns \<noteq> []" using assms(1) by simp
  obtain i where i: "i < length P" and pi: "P ! i = p"
    using assms(2) by (auto simp: in_set_conv_nth)
  then have "\<exists>j < length ?ns. H (data (?ns ! j)) = H (data \<lparr>data = p\<rparr>)"
    by (intro exI [of _ i]) simp
  with findPosition_cases [of H ?ns "\<lparr>data = p\<rparr>"]
  obtain r where r: "r < length ?ns"
    and f: "findPosition H ?ns \<lparr>data = p\<rparr> 0 = int r"
    and h: "H (data (?ns ! r)) = H (data \<lparr>data = p\<rparr>)"
    by blast
  have gp: "getProof H ?t p = Inr (walk (ladder H (Suc ?m) ?ns) r)"
    using f by (simp only: getProof_found nodes_new_MerkleTree layers_new_MerkleTree)
  have root: "getMerkleRoot H ?t = Inr (to_hex (H (data (?top ! 0))))"
    using ne by (rule getMerkleRoot_new)
  obtain d' where fold: "foldProof H (walk (ladder H (Suc ?m) ?ns) r) \<lparr>data = p\<rparr> = Inr d'"
    and hd: "H (data d') = H (data (?top ! (r div 2 ^ ?m)))"
    using fold_walk [OF r h [symmetric], of ?m] by blast
  have "length ?top = 1" using ne by (rule length_top_layer)
  moreover have "r div 2 ^ ?m < length ?top" using r by (rule position_in_range)
  ultimately have "r div 2 ^ ?m = 0" by simp
  with hd have "H (data d') = H (data (?top ! 0))" by simp
  then have "verify H p (walk (ladder H (Suc ?m) ?ns) r) (to_hex (H (data (?top ! 0)))) = Inr True"
    using fold by (simp add: verify_eq)
  with gp root show ?thesis by blast
qed

text \<open>The round trip of C1 on three leaves, for the unpaired last one.\<close>

theorem self_consistency_witness:
  "\<exists>pf root.
     getProof demoHash (new_MerkleTree demoHash (map (\<lambda>x. \<lparr>data = x\<rparr>) [[1], [2], [3]])) [3] = Inr pf \<and>
     getMerkleRoot demoHash (new_MerkleTree demoHash (map (\<lambda>x. \<lparr>data = x\<rparr>) [[1], [2], [3]])) = Inr root \<and>
     verify demoHash [3] pf root = Inr True"
  using self_consistency [of "[[1], [2], [3]]" "[3]" demoHash] by simp

section \<open>Construction from an empty leaf list\<close>

text \<open>
  Claim C2 says that construction from an empty leaf list fails with an EmptyTreeError and
  produces no tree. The constructor has no such check: for no leaves the target number of
  layers is \<open>Math.ceil(0 / 2) + 1 = 1\<close>, the copied (empty) leaf array is already one layer,
  the loop body never runs, and the constructor returns a tree whose only layer is empty.
\<close>

theorem empty_leaf_list_counterexample:
  "new_MerkleTree demoHash [] = \<lparr>nodes = [], layers = [[]]\<rparr>"
  by (simp add: new_MerkleTree_def generateTree_def targetLayerNumber_eq generateTree_loop.simps)

text \<open>
  Claim C2, as amended: construction from an empty leaf list raises nothing and returns the
  tree with the single empty layer, for every digest function. The first failure comes
  later, when the root of that tree is read: the top layer has no first entry, and reading
  its hash is a TypeError.
\<close>

theorem empty_leaf_list_builds_tree:
  "new_MerkleTree H [] = \<lparr>nodes = [], layers = [[]]\<rparr> \<and>
   getMerkleRoot H (new_MerkleTree H []) = Inl TypeError"
proof -
  have t: "new_MerkleTree H [] = \<lparr>nodes = [], layers = [[]]\<rparr>"
    by (simp add: new_MerkleTree_def generateTree_def targetLayerNumber_eq generateTree_loop.simps)
  show ?thesis by (simp add: t getMerkleRoot_def js_index_def)
qed

text \<open>The amended C2 at the sample digest.\<close>

theorem empty_leaf_list_builds_tree_witness:
  "new_MerkleTree demoHash [] = \<lparr>nodes = [], layers = [[]]\<rparr> \<and>
   getMerkleRoot demoHash (new_MerkleTree demoHash []) = Inl TypeError"
  by (rule empty_leaf_list_builds_tree [of demoHash])

section \<open>How many layers are built\<close>

text \<open>
  Claim C3 says that construction stops when a layer of length 1 is produced, so that the
  top layer is the first layer of length 1 and no such layer is fed back into the builder.
  The loop counts layers instead: it runs until there are \<open>Math.ceil(n / 2) + 1\<close> of them.
  For seven leaves that is 5 layers, of lengths 7, 4, 2, 1, 1: the layer at index 3 already
  has length 1, and the layer at index 4 is the builder applied to it.
\<close>

theorem first_single_layer_counterexample:
  "length (layers (new_MerkleTree demoHash sevenLeaves)) = 5 \<and>
   length (layers (new_MerkleTree demoHash sevenLeaves) ! 3) = 1 \<and>
   layers (new_MerkleTree demoHash sevenLeaves) ! 4 =
     nextLayer demoHash (layers (new_MerkleTree demoHash sevenLeaves) ! 3)"
proof -
  have len: "(length sevenLeaves + 1) div 2 = 4" by (simp add: sevenLeaves_def)
  have L: "layers (new_MerkleTree demoHash sevenLeaves) = ladder demoHash (Suc 4) sevenLeaves"
    by (simp only: layers_new_MerkleTree len)
  show ?thesis
    unfolding L by (simp add: sevenLeaves_def nextLayer_eq eval_nat_numeral)
qed

text \<open>
  Claim C3, as amended: for every non-empty leaf list of length \<open>n\<close> the tree has exactly
  \<open>ceil(n / 2) + 1\<close> layers; the first is the leaf list and each further one is the layer
  builder applied to the one below; the top layer has length 1. The loop ends on the count
  of layers, not on a layer's length: a layer of length 1 below the top is fed back into
  the builder, which returns it unchanged, so every layer above it is equal to it.
\<close>

theorem layers_built_by_count:
  assumes "ns \<noteq> []"
  shows "length (layers (new_MerkleTree H ns)) = (length ns + 1) div 2 + 1 \<and>
         layers (new_MerkleTree H ns) ! 0 = ns \<and>
         (\<forall>k. Suc k < length (layers (new_MerkleTree H ns)) \<longrightarrow>
              layers (new_MerkleTree H ns) ! Suc k = nextLayer H (layers (new_MerkleTree H ns) ! k)) \<and>
         length (last (layers (new_MerkleTree H ns))) = 1 \<and>
         (\<forall>k j. k \<le> j \<and> j < length (layers (new_MerkleTree H ns)) \<and>
                length (layers (new_MerkleTree H ns) ! k) = 1 \<longrightarrow>
                layers (new_MerkleTree H ns) ! j = layers (new_MerkleTree H ns) ! k)"
proof -
  let ?m = "(length ns + 1) div 2"
  let ?L = "layers (new_MerkleTree H ns)"
  have L: "?L = ladder H (Suc ?m) ns" by (rule layers_new_MerkleTree)
  have len: "length ?L = ?m + 1" by (simp add: L length_ladder del: ladder.simps)
  have nth: "\<And>k. k < Suc ?m \<Longrightarrow> ?L ! k = (pairUp H ^^ k) ns"
    unfolding L by (rule ladder_nth)
  have first: "?L ! 0 = ns" using nth [of 0] by simp
  have step: "\<forall>k. Suc k < length ?L \<longrightarrow> ?L ! Suc k = nextLayer H (?L ! k)"
  proof (intro allI impI)
    fix k assume "Suc k < length ?L"
    then have "Suc k < Suc ?m" using len by simp
    then show "?L ! Suc k = nextLayer H (?L ! k)"
      by (simp add: nth nextLayer_eq)
  qed
  have "?L \<noteq> []" using len by (cases ?L) simp_all
  then have "last ?L = ?L ! (length ?L - 1)" by (rule last_conv_nth)
  then have "last ?L = ?L ! ?m" by (simp only: len add_diff_cancel_right')
  then have "last ?L = (pairUp H ^^ ?m) ns" by (simp only: nth [of ?m] lessI)
  then have top: "length (last ?L) = 1" using length_top_layer [OF assms, of H] by simp
  have stay: "\<forall>k j. k \<le> j \<and> j < length ?L \<and> length (?L ! k) = 1 \<longrightarrow> ?L ! j = ?L ! k"
  proof (intro allI impI)
    fix k j assume a: "k \<le> j \<and> j < length ?L \<and> length (?L ! k) = 1"
    then have j: "j < Suc ?m" and k: "k < Suc ?m" using len by simp_all
    have "(pairUp H ^^ j) ns = (pairUp H ^^ (j - k)) ((pairUp H ^^ k) ns)"
      using a by (simp add: funpow_add [symmetric, unfolded comp_def, THEN fun_cong])
    also have "\<dots> = (pairUp H ^^ k) ns"
      using a by (intro funpow_pairUp_single) (simp add: nth [OF k])
    finally show "?L ! j = ?L ! k" by (simp add: nth [OF j] nth [OF k])
  qed
  from len first step top stay show ?thesis by blast
qed

text \<open>The amended C3 on seven leaves: five layers, the top one of length 1.\<close>

theorem layers_built_by_count_witness:
  "length (layers (new_MerkleTree demoHash sevenLeaves)) = 5 \<and>
   length (last (layers (new_MerkleTree demoHash sevenLeaves))) = 1"
  using layers_built_by_count [of sevenLeaves demoHash]
  by (simp add: sevenLeaves_def)

section \<open>The layer builder\<close>

text \<open>
  Claim C4. The layer builder takes the entries of a layer in consecutive pairs, in order:
  entry \<open>k\<close> of the new layer comes from the entries \<open>2k\<close> and \<open>2k+1\<close>. When both exist,
  the new node's payload is the left digest followed by the right digest, with nothing in
  between, and its digest is the hash of that concatenation. When only the left one exists
  (the layer has odd length and this is its last entry) the new entry is the left node
  itself, not rehashed.
\<close>

theorem layer_builder_pairing:
  "length (nextLayer H layer) = (length layer + 1) div 2 \<and>
   (2 * k + 1 < length layer \<longrightarrow>
      data (nextLayer H layer ! k) = hash H (layer ! (2 * k)) @ hash H (layer ! (2 * k + 1)) \<and>
      hash H (nextLayer H layer ! k) = H (hash H (layer ! (2 * k)) @ hash H (layer ! (2 * k + 1)))) \<and>
   (length layer = 2 * k + 1 \<longrightarrow> nextLayer H layer ! k = layer ! (2 * k))"
proof (intro conjI impI)
  show "length (nextLayer H layer) = (length layer + 1) div 2"
    by (simp only: nextLayer_eq length_pairUp)
next
  assume a: "2 * k + 1 < length layer"
  then show "data (nextLayer H layer ! k) = hash H (layer ! (2 * k)) @ hash H (layer ! (2 * k + 1))"
    by (simp add: nextLayer_eq pairUp_nth_pair hash_def)
  from a show "hash H (nextLayer H layer ! k) = H (hash H (layer ! (2 * k)) @ hash H (layer ! (2 * k + 1)))"
    by (simp add: nextLayer_eq pairUp_nth_pair hash_def)
next
  assume "length layer = 2 * k + 1"
  then show "nextLayer H layer ! k = layer ! (2 * k)"
    by (simp only: nextLayer_eq pairUp_nth_single)
qed

text \<open>C4 on a layer of three nodes: one hashed pair, then the unpaired node carried over.\<close>

theorem layer_builder_pairing_witness:
  "data (nextLayer demoHash [\<lparr>data = [1]\<rparr>, \<lparr>data = [2]\<rparr>, \<lparr>data = [3]\<rparr>] ! 0) = [1, 1, 1, 2] \<and>
   nextLayer demoHash [\<lparr>data = [1]\<rparr>, \<lparr>data = [2]\<rparr>, \<lparr>data = [3]\<rparr>] ! 1 = \<lparr>data = [3]\<rparr> \<and>
   length (nextLayer demoHash [\<lparr>data = [1]\<rparr>, \<lparr>data = [2]\<rparr>, \<lparr>data = [3]\<rparr>]) = 2"
  using layer_builder_pairing [of demoHash "[\<lparr>data = [1]\<rparr>, \<lparr>data = [2]\<rparr>, \<lparr>data = [3]\<rparr>]" 0]
    layer_builder_pairing [of demoHash "[\<lparr>data = [1]\<rparr>, \<lparr>data = [2]\<rparr>, \<lparr>data = [3]\<rparr>]" 1]
  by (simp add: hash_def demoHash_def)

section \<open>The single-leaf tree\<close>

text \<open>
  Claim C5. A tree built from one leaf has exactly two layers, both \<open>[leaf]\<close>; its root is
  the hexadecimal digest of the leaf's own payload, not rehashed and not paired with
  itself; the proof generated for the leaf is the single step with indicator \<open>right\<close> and no
  sibling, and verifying the leaf's payload with that proof against that root gives true.
\<close>

theorem single_leaf_tree:
  "layers (new_MerkleTree H [leaf]) = [[leaf], [leaf]] \<and>
   getMerkleRoot H (new_MerkleTree H [leaf]) = Inr (to_hex (hash H leaf)) \<and>
   getProof H (new_MerkleTree H [leaf]) (data leaf) =
     Inr [\<lparr>hashPositionIndicator = ''right'', sibling = None\<rparr>] \<and>
   verify H (data leaf) [\<lparr>hashPositionIndicator = ''right'', sibling = None\<rparr>]
     (to_hex (hash H leaf)) = Inr True"
proof (intro conjI)
  show l: "layers (new_MerkleTree H [leaf]) = [[leaf], [leaf]]"
    by (simp add: layers_new_MerkleTree numeral_2_eq_2)
  show "getMerkleRoot H (new_MerkleTree H [leaf]) = Inr (to_hex (hash H leaf))"
    by (simp add: getMerkleRoot_def l js_index_def)
  have "findPosition H [leaf] \<lparr>data = data leaf\<rparr> 0 = int 0"
    by (rule findPosition_first) simp_all
  then have "getProof H (new_MerkleTree H [leaf]) (data leaf) = Inr (walk [[leaf], [leaf]] 0)"
    by (simp only: getProof_found nodes_new_MerkleTree l)
  then show "getProof H (new_MerkleTree H [leaf]) (data leaf) =
     Inr [\<lparr>hashPositionIndicator = ''right'', sibling = None\<rparr>]"
    by (simp add: stepAt_def js_index_def)
  show "verify H (data leaf) [\<lparr>hashPositionIndicator = ''right'', sibling = None\<rparr>]
     (to_hex (hash H leaf)) = Inr True"
    by (simp add: verify_eq hash_def)
qed

text \<open>C5 for the leaf \<^verbatim>\<open>'a'\<close> at the sample digest.\<close>

theorem single_leaf_tree_witness:
  "layers (new_MerkleTree demoHash [\<lparr>data = [97]\<rparr>]) = [[\<lparr>data = [97]\<rparr>], [\<lparr>data = [97]\<rparr>]] \<and>
   getMerkleRoot demoHash (new_MerkleTree demoHash [\<lparr>data = [97]\<rparr>]) = Inr ''0161'' \<and>
   verify demoHash [97] [\<lparr>hashPositionIndicator = ''right'', sibling = None\<rparr>] ''0161'' = Inr True"
  using single_leaf_tree [of demoHash "\<lparr>data = [97]\<rparr>"]
  by (simp add: hash_def demoHash_def to_hex_def hex_byte_def hex_digit_def)

section \<open>Looking a payload up\<close>

text \<open>
  Claim C6. \<^verbatim>\<open>getProof\<close> throws its not-found error exactly when no leaf has the digest of
  the requested payload, and that is its only error. Otherwise the proof is the walk that
  starts at the first (lowest) index whose leaf has that digest. Leaves are compared by
  digest, not by payload: any payload with the digest of a leaf is found.
\<close>

theorem proof_lookup:
  "(getProof H t rawData = Inl (ElementNotFound rawData) \<longleftrightarrow>
      (\<forall>n \<in> set (nodes t). hash H n \<noteq> H rawData)) \<and>
   ((\<exists>e. getProof H t rawData = Inl e) \<longleftrightarrow>
      (\<forall>n \<in> set (nodes t). hash H n \<noteq> H rawData)) \<and>
   (\<forall>i. i < length (nodes t) \<and> hash H (nodes t ! i) = H rawData \<and>
        (\<forall>j < i. hash H (nodes t ! j) \<noteq> H rawData) \<longrightarrow>
        getProof H t rawData = Inr (proof_loop (layers t) 0 (int i) []))"
proof -
  let ?d = "\<lparr>data = rawData\<rparr>"
  have first: "getProof H t rawData = Inr (proof_loop (layers t) 0 (int i) [])"
    if "i < length (nodes t)" and "hash H (nodes t ! i) = H rawData"
      and "\<forall>j < i. hash H (nodes t ! j) \<noteq> H rawData" for i
  proof -
    have "findPosition H (nodes t) ?d 0 = int i"
      using that by (intro findPosition_first) (simp_all add: hash_def)
    then show ?thesis by (simp add: getProof_def)
  qed
  from findPosition_cases [of H "nodes t" ?d]
  show ?thesis
  proof (elim disjE conjE exE)
    assume f: "findPosition H (nodes t) ?d 0 = - 1"
      and n: "\<forall>j<length (nodes t). H (data (nodes t ! j)) \<noteq> H (data ?d)"
    have g: "getProof H t rawData = Inl (ElementNotFound rawData)"
      using f by (rule getProof_not_found)
    have none: "\<forall>n \<in> set (nodes t). hash H n \<noteq> H rawData"
      using n by (auto simp: in_set_conv_nth hash_def)
    from g none first show ?thesis by auto
  next
    fix r
    assume r: "r < length (nodes t)"
      and f: "findPosition H (nodes t) ?d 0 = int r"
      and h: "H (data (nodes t ! r)) = H (data ?d)"
    have g: "getProof H t rawData = Inr (walk (layers t) r)"
      using f by (rule getProof_found)
    have "nodes t ! r \<in> set (nodes t)" using r by simp
    moreover have "hash H (nodes t ! r) = H rawData" using h by (simp add: hash_def)
    ultimately have some: "\<not> (\<forall>n \<in> set (nodes t). hash H n \<noteq> H rawData)" by blast
    from g some first show ?thesis by auto
  qed
qed

text \<open>
  C6 on the leaves \<^verbatim>\<open>a, b, c, d\<close>: \<^verbatim>\<open>'z'\<close> is not found, \<^verbatim>\<open>'c'\<close> is found at index 2; and a
  payload that differs from the only leaf but has its digest is found at index 0.
\<close>

theorem proof_lookup_witness:
  "getProof demoHash (new_MerkleTree demoHash fourLeaves) [122] = Inl (ElementNotFound [122]) \<and>
   getProof demoHash (new_MerkleTree demoHash fourLeaves) [99] =
     Inr (proof_loop (layers (new_MerkleTree demoHash fourLeaves)) 0 2 []) \<and>
   getProof demoHash (new_MerkleTree demoHash [\<lparr>data = [1, 2]\<rparr>]) [2, 1] =
     Inr (proof_loop (layers (new_MerkleTree demoHash [\<lparr>data = [1, 2]\<rparr>])) 0 0 [])"
proof -
  let ?T = "new_MerkleTree demoHash fourLeaves"
  let ?U = "new_MerkleTree demoHash [\<lparr>data = [1, 2]\<rparr>]"
  have none: "\<forall>n \<in> set (nodes ?T). hash demoHash n \<noteq> demoHash [122]"
    by (simp add: nodes_new_MerkleTree fourLeaves_def hash_def demoHash_def)
  have third: "2 < length (nodes ?T) \<and> hash demoHash (nodes ?T ! 2) = demoHash [99] \<and>
               (\<forall>j < 2. hash demoHash (nodes ?T ! j) \<noteq> demoHash [99])"
    by (auto simp: nodes_new_MerkleTree fourLeaves_def hash_def demoHash_def dest!: less_2_cases)
  have collide: "0 < length (nodes ?U) \<and> hash demoHash (nodes ?U ! 0) = demoHash [2, 1] \<and>
                 (\<forall>j < 0. hash demoHash (nodes ?U ! j) \<noteq> demoHash [2, 1])"
    by (simp add: nodes_new_MerkleTree hash_def demoHash_def)
  from proof_lookup [of demoHash ?T "[122]"] none
  have "getProof demoHash ?T [122] = Inl (ElementNotFound [122])" by blast
  moreover from proof_lookup [of demoHash ?T "[99]"] third
  have "getProof demoHash ?T [99] = Inr (proof_loop (layers ?T) 0 (int 2) [])" by blast
  moreover from proof_lookup [of demoHash ?U "[2, 1]"] collide
  have "getProof demoHash ?U [2, 1] = Inr (proof_loop (layers ?U) 0 (int 0) [])" by blast
  ultimately show ?thesis by simp
qed

section \<open>The steps of a generated proof\<close>

text \<open>
  Claim C7. Let \<open>i\<close> be the index found for the payload. The proof has one step for each
  layer but the top one, bottom-up, and the position at layer \<open>k\<close> is \<open>i div 2 ^ k\<close>, since
  moving up halves the position, rounding down. Where the position is even the step has
  indicator \<open>right\<close> and its sibling is the entry one to the right, absent when that index is
  outside the layer. Where it is odd the step has indicator \<open>left\<close> and its sibling is the
  entry one to the left, which is inside the layer.
\<close>

theorem proof_walk_steps:
  assumes "i < length ns" and "hash H (ns ! i) = H rawData"
    and "\<forall>j < i. hash H (ns ! j) \<noteq> H rawData"
  shows "\<exists>pf. getProof H (new_MerkleTree H ns) rawData = Inr pf \<and>
           length pf = length (layers (new_MerkleTree H ns)) - 1 \<and>
           (\<forall>k < length pf.
              (even (i div 2 ^ k) \<longrightarrow>
                 hashPositionIndicator (pf ! k) = ''right'' \<and>
                 sibling (pf ! k) =
                   (if i div 2 ^ k + 1 < length (layers (new_MerkleTree H ns) ! k)
                    then Some (layers (new_MerkleTree H ns) ! k ! (i div 2 ^ k + 1)) else None)) \<and>
              (odd (i div 2 ^ k) \<longrightarrow>
                 hashPositionIndicator (pf ! k) = ''left'' \<and>
                 i div 2 ^ k - 1 < length (layers (new_MerkleTree H ns) ! k) \<and>
                 sibling (pf ! k) = Some (layers (new_MerkleTree H ns) ! k ! (i div 2 ^ k - 1)))) \<and>
           (\<forall>q. moveUp (int q) = int (q div 2))"
proof -
  let ?t = "new_MerkleTree H ns"
  let ?L = "layers ?t"
  let ?m = "(length ns + 1) div 2"
  let ?pf = "walk ?L i"
  have L: "?L = ladder H (Suc ?m) ns" by (rule layers_new_MerkleTree)
  have len: "length ?L = Suc ?m" unfolding L by (rule length_ladder)
  have "findPosition H ns \<lparr>data = rawData\<rparr> 0 = int i"
    using assms by (intro findPosition_first) (simp_all add: hash_def)
  then have g: "getProof H ?t rawData = Inr ?pf"
    by (simp only: getProof_found nodes_new_MerkleTree)
  have lp: "length ?pf = length ?L - 1" by (rule length_walk)
  have steps: "(even (i div 2 ^ k) \<longrightarrow>
                 hashPositionIndicator (?pf ! k) = ''right'' \<and>
                 sibling (?pf ! k) =
                   (if i div 2 ^ k + 1 < length (?L ! k)
                    then Some (?L ! k ! (i div 2 ^ k + 1)) else None)) \<and>
              (odd (i div 2 ^ k) \<longrightarrow>
                 hashPositionIndicator (?pf ! k) = ''left'' \<and>
                 i div 2 ^ k - 1 < length (?L ! k) \<and>
                 sibling (?pf ! k) = Some (?L ! k ! (i div 2 ^ k - 1)))"
    if k: "k < length ?pf" for k
  proof -
    have sk: "Suc k < length ?L" using k lp by simp
    then have kl: "k < Suc ?m" using len by simp
    have n: "?pf ! k = stepAt (?L ! k) (i div 2 ^ k)" using sk by (rule walk_nth)
    have "?L ! k = (pairUp H ^^ k) ns" unfolding L using kl by (rule ladder_nth)
    then have r: "i div 2 ^ k < length (?L ! k)"
      using position_in_range [OF assms(1), of k H] by simp
    show ?thesis
      using r
      by (auto simp: n stepAt_indicator stepAt_sibling_even stepAt_sibling_odd
          intro: less_imp_diff_less)
  qed
  have mv: "\<forall>q. moveUp (int q) = int (q div 2)" by (simp add: moveUp_eq zdiv_int)
  from g lp steps mv show ?thesis by blast
qed

text \<open>C7 for \<^verbatim>\<open>'c'\<close> among \<^verbatim>\<open>a, b, c, d\<close>: index 2, then 1; two steps.\<close>

theorem proof_walk_steps_witness:
  "\<exists>pf. getProof demoHash (new_MerkleTree demoHash fourLeaves) [99] = Inr pf \<and>
        length pf = 2 \<and>
        hashPositionIndicator (pf ! 0) = ''right'' \<and> sibling (pf ! 0) = Some \<lparr>data = [100]\<rparr> \<and>
        hashPositionIndicator (pf ! 1) = ''left'' \<and>
        sibling (pf ! 1) = Some \<lparr>data = demoHash [97] @ demoHash [98]\<rparr>"
proof -
  let ?T = "new_MerkleTree demoHash fourLeaves"
  have h: "2 < length fourLeaves" "hash demoHash (fourLeaves ! 2) = demoHash [99]"
    "\<forall>j < 2. hash demoHash (fourLeaves ! j) \<noteq> demoHash [99]"
    by (auto simp: fourLeaves_def hash_def demoHash_def dest!: less_2_cases)
  from proof_walk_steps [OF h]
  obtain pf where g: "getProof demoHash ?T [99] = Inr pf"
    and l: "length pf = length (layers ?T) - 1"
    and s: "\<forall>k < length pf.
              (even (2 div 2 ^ k :: nat) \<longrightarrow>
                 hashPositionIndicator (pf ! k) = ''right'' \<and>
                 sibling (pf ! k) =
                   (if 2 div 2 ^ k + 1 < length (layers ?T ! k)
                    then Some (layers ?T ! k ! (2 div 2 ^ k + 1)) else None)) \<and>
              (odd (2 div 2 ^ k :: nat) \<longrightarrow>
                 hashPositionIndicator (pf ! k) = ''left'' \<and>
                 2 div 2 ^ k - 1 < length (layers ?T ! k) \<and>
                 sibling (pf ! k) = Some (layers ?T ! k ! (2 div 2 ^ k - 1)))"
    by blast
  have l2: "length pf = 2" using l by (simp add: layers_fourLeaves)
  have s0: "hashPositionIndicator (pf ! 0) = ''right'' \<and> sibling (pf ! 0) = Some \<lparr>data = [100]\<rparr>"
    using s [rule_format, of 0] l2 unfolding layers_fourLeaves by (simp add: fourLeaves_def)
  have s1: "hashPositionIndicator (pf ! 1) = ''left'' \<and>
            sibling (pf ! 1) = Some \<lparr>data = demoHash [97] @ demoHash [98]\<rparr>"
    using s [rule_format, of 1] l2 unfolding layers_fourLeaves by simp
  from g l2 s0 s1 show ?thesis by blast
qed

section \<open>The verifier as a fold\<close>

text \<open>
  Claim C8. On a proof made of the three kinds of step the claim describes (any step with
  indicator \<open>left\<close> has a sibling), \<^verbatim>\<open>verify\<close> is the specification's fold: it starts from
  the digest of the payload; a step on the left hashes sibling then current, a step on the
  right with a sibling hashes current then sibling, a step on the right without a sibling
  leaves the current hash as it is; the result is whether the hexadecimal form of the
  final hash is the given root string, which for the hexadecimal form of a claimed root is
  equality of the bytes.
\<close>

theorem verifier_fold:
  assumes "\<forall>e \<in> set pf. hashPositionIndicator e = ''left'' \<longrightarrow> sibling e \<noteq> None"
  shows "verify H payload pf merkleRoot =
           Inr (to_hex (foldl (spec_step H) (H payload) (map (step_of H) pf)) = merkleRoot) \<and>
         verify H payload pf (to_hex claimedRoot) =
           Inr (spec_verify H payload (map (step_of H) pf) claimedRoot)"
proof -
  obtain d' where f: "foldProof H pf \<lparr>data = payload\<rparr> = Inr d'"
    and h: "H (data d') = foldl (spec_step H) (H (data \<lparr>data = payload\<rparr>)) (map (step_of H) pf)"
    using foldProof_spec [of pf H "\<lparr>data = payload\<rparr>"] assms by blast
  have "verify H payload pf r =
          Inr (to_hex (foldl (spec_step H) (H payload) (map (step_of H) pf)) = r)" for r
    using f h by (simp add: verify_eq)
  then show ?thesis by (simp add: spec_verify_def to_hex_eq_iff)
qed

text \<open>C8 on a proof with one step of each kind.\<close>

theorem verifier_fold_witness:
  "verify demoHash [99]
     [\<lparr>hashPositionIndicator = ''right'', sibling = Some \<lparr>data = [100]\<rparr>\<rparr>,
      \<lparr>hashPositionIndicator = ''left'', sibling = Some \<lparr>data = [1, 97, 1, 98]\<rparr>\<rparr>,
      \<lparr>hashPositionIndicator = ''right'', sibling = None\<rparr>] ''0496'' = Inr True"
  using verifier_fold [of
     "[\<lparr>hashPositionIndicator = ''right'', sibling = Some \<lparr>data = [100]\<rparr>\<rparr>,
      \<lparr>hashPositionIndicator = ''left'', sibling = Some \<lparr>data = [1, 97, 1, 98]\<rparr>\<rparr>,
      \<lparr>hashPositionIndicator = ''right'', sibling = None\<rparr>]" demoHash "[99]" "''0496''"]
  by (simp add: step_of_def hash_def demoHash_def to_hex_def hex_byte_def hex_digit_def)

section \<open>When verification throws\<close>

text \<open>
  Claim C9 says that \<^verbatim>\<open>verify\<close> never raises, whatever the proof, and names a step on the
  left without a sibling as an example. On exactly that step the code reads
  \<^verbatim>\<open>sibling.hash\<close> of \<^verbatim>\<open>undefined\<close>, which throws.
\<close>

theorem verify_raises_counterexample:
  "verify demoHash [97] [\<lparr>hashPositionIndicator = ''left'', sibling = None\<rparr>] [] = Inl TypeError"
  by (simp add: verify_eq)

text \<open>
  Claim C9, as amended. A proof is an array of steps whose sibling is a \<^verbatim>\<open>Node\<close> or
  \<^verbatim>\<open>undefined\<close>, as \<^verbatim>\<open>getProof\<close> produces them. On such a proof in which every step with
  indicator \<open>left\<close> has a sibling, \<^verbatim>\<open>verify\<close> throws nothing, for every payload and every
  root string: it returns whether the hexadecimal form of the hash folded from the
  payload's digest through the steps is the given root, so a wrong root, or a change of
  the payload or of a sibling that changes the folded hash, gives false and no error. On
  a proof with a step of indicator \<open>left\<close> and no sibling it throws a TypeError. These are
  the only two outcomes: \<^verbatim>\<open>verify\<close> returns exactly on the proofs of the first kind.
\<close>

theorem verify_total_on_well_formed:
  "((\<forall>e \<in> set pf. hashPositionIndicator e = ''left'' \<longrightarrow> sibling e \<noteq> None) \<longrightarrow>
      verify H payload pf merkleRoot =
        Inr (to_hex (foldl (spec_step H) (H payload) (map (step_of H) pf)) = merkleRoot) \<and>
      (to_hex (foldl (spec_step H) (H payload) (map (step_of H) pf)) \<noteq> merkleRoot \<longrightarrow>
         verify H payload pf merkleRoot = Inr False)) \<and>
   ((\<exists>e \<in> set pf. hashPositionIndicator e = ''left'' \<and> sibling e = None) \<longrightarrow>
      verify H payload pf merkleRoot = Inl TypeError) \<and>
   ((\<exists>b. verify H payload pf merkleRoot = Inr b) \<longleftrightarrow>
      (\<forall>e \<in> set pf. hashPositionIndicator e = ''left'' \<longrightarrow> sibling e \<noteq> None)) \<and>
   (verify H payload pf merkleRoot = Inl TypeError \<longleftrightarrow>
      (\<exists>e \<in> set pf. hashPositionIndicator e = ''left'' \<and> sibling e = None))"
proof (cases "\<forall>e \<in> set pf. hashPositionIndicator e = ''left'' \<longrightarrow> sibling e \<noteq> None")
  case True
  then obtain d' where f: "foldProof H pf \<lparr>data = payload\<rparr> = Inr d'"
    and h: "H (data d') =
            foldl (spec_step H) (H (data \<lparr>data = payload\<rparr>)) (map (step_of H) pf)"
    using foldProof_spec [of pf H "\<lparr>data = payload\<rparr>"] by blast
  have v: "verify H payload pf merkleRoot =
           Inr (to_hex (foldl (spec_step H) (H payload) (map (step_of H) pf)) = merkleRoot)"
    using f h by (simp add: verify_eq)
  from True have no: "\<not> (\<exists>e \<in> set pf. hashPositionIndicator e = ''left'' \<and> sibling e = None)"
    by blast
  have ret: "\<exists>b. verify H payload pf merkleRoot = Inr b" using v by blast
  have nerr: "verify H payload pf merkleRoot \<noteq> Inl TypeError" using v by simp
  have wrong: "to_hex (foldl (spec_step H) (H payload) (map (step_of H) pf)) \<noteq> merkleRoot \<longrightarrow>
               verify H payload pf merkleRoot = Inr False"
    using v by simp
  from True no v wrong ret nerr show ?thesis by blast
next
  case False
  then obtain e where e: "e \<in> set pf" "hashPositionIndicator e = ''left''" "sibling e = None"
    by blast
  then have "foldProof H pf \<lparr>data = payload\<rparr> = Inl TypeError" by (rule foldProof_TypeError)
  then have v: "verify H payload pf merkleRoot = Inl TypeError" by (simp add: verify_eq)
  then have nret: "\<not> (\<exists>b. verify H payload pf merkleRoot = Inr b)" by simp
  have bad: "\<exists>e \<in> set pf. hashPositionIndicator e = ''left'' \<and> sibling e = None"
    using e by (intro bexI [of _ e]) simp_all
  from False bad v nret show ?thesis by blast
qed

text \<open>
  The amended C9 at the sample digest: the right root gives true; a wrong root, another
  payload and a changed sibling each give false; a step on the left without a sibling
  throws.
\<close>

theorem verify_total_on_well_formed_witness:
  "verify demoHash [99]
      [\<lparr>hashPositionIndicator = ''right'', sibling = Some \<lparr>data = [100]\<rparr>\<rparr>,
       \<lparr>hashPositionIndicator = ''left'', sibling = Some \<lparr>data = [1, 97, 1, 98]\<rparr>\<rparr>] ''0496'' = Inr True \<and>
   verify demoHash [99]
      [\<lparr>hashPositionIndicator = ''right'', sibling = Some \<lparr>data = [100]\<rparr>\<rparr>,
       \<lparr>hashPositionIndicator = ''left'', sibling = Some \<lparr>data = [1, 97, 1, 98]\<rparr>\<rparr>] ''0497'' = Inr False \<and>
   verify demoHash [98]
      [\<lparr>hashPositionIndicator = ''right'', sibling = Some \<lparr>data = [100]\<rparr>\<rparr>,
       \<lparr>hashPositionIndicator = ''left'', sibling = Some \<lparr>data = [1, 97, 1, 98]\<rparr>\<rparr>] ''0496'' = Inr False \<and>
   verify demoHash [99]
      [\<lparr>hashPositionIndicator = ''right'', sibling = Some \<lparr>data = [120]\<rparr>\<rparr>,
       \<lparr>hashPositionIndicator = ''left'', sibling = Some \<lparr>data = [1, 97, 1, 98]\<rparr>\<rparr>] ''0496'' = Inr False \<and>
   verify demoHash [99]
      [\<lparr>hashPositionIndicator = ''right'', sibling = Some \<lparr>data = [100]\<rparr>\<rparr>,
       \<lparr>hashPositionIndicator = ''left'', sibling = None\<rparr>] ''0496'' = Inl TypeError"
proof -
  let ?good = "[\<lparr>hashPositionIndicator = ''right'', sibling = Some \<lparr>data = [100]\<rparr>\<rparr>,
       \<lparr>hashPositionIndicator = ''left'', sibling = Some \<lparr>data = [1, 97, 1, 98]\<rparr>\<rparr>]"
  let ?tampered = "[\<lparr>hashPositionIndicator = ''right'', sibling = Some \<lparr>data = [120]\<rparr>\<rparr>,
       \<lparr>hashPositionIndicator = ''left'', sibling = Some \<lparr>data = [1, 97, 1, 98]\<rparr>\<rparr>]"
  let ?bad = "[\<lparr>hashPositionIndicator = ''right'', sibling = Some \<lparr>data = [100]\<rparr>\<rparr>,
       \<lparr>hashPositionIndicator = ''left'', sibling = None\<rparr>]"
  have ev: "hash demoHash \<lparr>data = [100]\<rparr> = [1, 100]" "hash demoHash \<lparr>data = [120]\<rparr> = [1, 120]"
    "hash demoHash \<lparr>data = [1, 97, 1, 98]\<rparr> = [4, 197]"
    by (simp_all add: hash_def demoHash_def)
  have a: "verify demoHash [99] ?good ''0496'' = Inr True"
    using verify_total_on_well_formed [of ?good demoHash "[99]" "''0496''"]
    by (simp add: step_of_def ev) (simp add: demoHash_def to_hex_def hex_byte_def hex_digit_def)
  have b: "verify demoHash [99] ?good ''0497'' = Inr False"
    using verify_total_on_well_formed [of ?good demoHash "[99]" "''0497''"]
    by (simp add: step_of_def ev) (simp add: demoHash_def to_hex_def hex_byte_def hex_digit_def)
  have c: "verify demoHash [98] ?good ''0496'' = Inr False"
    using verify_total_on_well_formed [of ?good demoHash "[98]" "''0496''"]
    by (simp add: step_of_def ev) (simp add: demoHash_def to_hex_def hex_byte_def hex_digit_def)
  have d: "verify demoHash [99] ?tampered ''0496'' = Inr False"
    using verify_total_on_well_formed [of ?tampered demoHash "[99]" "''0496''"]
    by (simp add: step_of_def ev) (simp add: demoHash_def to_hex_def hex_byte_def hex_digit_def)
  have e: "verify demoHash [99] ?bad ''0496'' = Inl TypeError"
    using verify_total_on_well_formed [of ?bad demoHash "[99]" "''0496''"] by simp
  from a b c d e show ?thesis by (intro conjI)
qed

section \<open>Generated proofs are well formed\<close>

text \<open>
  Claim C10. In a proof that \<^verbatim>\<open>getProof\<close> returns for a tree built from a non-empty leaf
  list, every step with indicator \<open>left\<close> has a sibling, a missing sibling occurs only in a
  step with indicator \<open>right\<close>, and so verifying with that proof returns a boolean for
  every root.
\<close>

theorem generated_proofs_well_formed:
  assumes "ns \<noteq> []" and "getProof H (new_MerkleTree H ns) rawData = Inr pf"
  shows "(\<forall>e \<in> set pf. hashPositionIndicator e = ''left'' \<longrightarrow> sibling e \<noteq> None) \<and>
         (\<forall>e \<in> set pf. sibling e = None \<longrightarrow> hashPositionIndicator e = ''right'') \<and>
         (\<exists>b. verify H rawData pf merkleRoot = Inr b)"
proof -
  let ?t = "new_MerkleTree H ns"
  let ?m = "(length ns + 1) div 2"
  from findPosition_cases [of H ns "\<lparr>data = rawData\<rparr>"]
  obtain r where r: "r < length ns" and pf: "pf = walk (ladder H (Suc ?m) ns) r"
  proof (elim disjE conjE exE)
    assume "findPosition H ns \<lparr>data = rawData\<rparr> 0 = - 1"
    then have "getProof H ?t rawData = Inl (ElementNotFound rawData)"
      by (simp only: getProof_not_found nodes_new_MerkleTree)
    with assms(2) show ?thesis by simp
  next
    fix r assume r: "r < length ns" and "findPosition H ns \<lparr>data = rawData\<rparr> 0 = int r"
    then have "getProof H ?t rawData = Inr (walk (ladder H (Suc ?m) ns) r)"
      by (simp only: getProof_found nodes_new_MerkleTree layers_new_MerkleTree)
    with assms(2) r that show ?thesis by simp
  qed
  have left: "\<forall>e \<in> set pf. hashPositionIndicator e = ''left'' \<longrightarrow> sibling e \<noteq> None"
    unfolding pf using walk_ladder_left [OF r] by blast
  have right: "\<forall>e \<in> set pf. sibling e = None \<longrightarrow> hashPositionIndicator e = ''right''"
    using left walk_indicator [of _ "ladder H (Suc ?m) ns" r] unfolding pf by blast
  obtain d' where "foldProof H pf \<lparr>data = rawData\<rparr> = Inr d'"
    using foldProof_total [of pf H "\<lparr>data = rawData\<rparr>"] left by blast
  then have "verify H rawData pf merkleRoot = Inr (to_hex (H (data d')) = merkleRoot)"
    by (simp add: verify_eq)
  with left right show ?thesis by blast
qed

text \<open>C10 for the unpaired leaf \<^verbatim>\<open>'e'\<close> among \<^verbatim>\<open>a, b, c, d, e\<close>.\<close>

theorem generated_proofs_well_formed_witness:
  "fiveLeaves \<noteq> [] \<and>
   getProof demoHash (new_MerkleTree demoHash fiveLeaves) [101] =
     Inr [\<lparr>hashPositionIndicator = ''right'', sibling = None\<rparr>,
          \<lparr>hashPositionIndicator = ''right'', sibling = None\<rparr>,
          \<lparr>hashPositionIndicator = ''left'',
           sibling = Some \<lparr>data = demoHash (demoHash [97] @ demoHash [98]) @
                                  demoHash (demoHash [99] @ demoHash [100])\<rparr>\<rparr>] \<and>
   (\<exists>b. verify demoHash [101]
           [\<lparr>hashPositionIndicator = ''right'', sibling = None\<rparr>,
            \<lparr>hashPositionIndicator = ''right'', sibling = None\<rparr>,
            \<lparr>hashPositionIndicator = ''left'',
             sibling = Some \<lparr>data = demoHash (demoHash [97] @ demoHash [98]) @
                                    demoHash (demoHash [99] @ demoHash [100])\<rparr>\<rparr>] ''00'' = Inr b)"
proof -
  have ne: "fiveLeaves \<noteq> []" by (simp add: fiveLeaves_def)
  from generated_proofs_well_formed [OF ne getProof_fiveLeaves, of "''00''"] ne getProof_fiveLeaves
  show ?thesis by blast
qed

end
